theory Spec2Isabelle
  imports Main "HOL-Library.AList" "HOL-Library.Sublist" "HOL-Library.Word"
begin

section \<open>Names\<close>

text \<open>
  A name is a sequence of typed components. Only the component kinds that the
  synchronisation engine and the subscriber build or inspect are distinguished:
  generic text, keywords, \<open>GenericNumber.create(n)\<close>, version markers and segment markers.
\<close>

datatype component =
    GenericComp string
  | KeywordComp string
  | GenericNumber nat
  | VersionComp nat
  | SegmentComp nat

type_synonym name = "component list"

type_synonym bytes = "8 word list"

section \<open>SvStateVector\<close>

text \<open>
  Modelled from the spec: the class \<open>SvStateVector\<close> (\<open>./state-vector\<close>) is imported by the
  engine but its file is not part of the sources at hand. The vector is an ordered mapping
  from publisher identifier to sequence number, kept here as an association list in
  insertion order. \<open>get\<close> defaults to 0, \<open>set\<close> writes one entry, \<open>mergeFrom\<close> sets, for
  every id of the other vector, the value to the maximum of both \<open>get\<close>s, and
  \<open>listOlderThan\<close> emits one range \<open>(this.get(id)+1 .. other.get(id))\<close> for every id on which
  this vector is behind the other.
\<close>

type_synonym state_vector = "(name \<times> nat) list"

record SyncUpdate =
  id' :: name
  loSeqNum :: nat
  hiSeqNum :: nat

definition sv_get :: "state_vector \<Rightarrow> name \<Rightarrow> nat" where
  "sv_get v i = (case map_of v i of None \<Rightarrow> 0 | Some n \<Rightarrow> n)"

definition sv_set :: "state_vector \<Rightarrow> name \<Rightarrow> nat \<Rightarrow> state_vector" where
  "sv_set v i n = AList.update i n v"

definition mergeFrom :: "state_vector \<Rightarrow> state_vector \<Rightarrow> state_vector" where
  "mergeFrom this other =
     fold (\<lambda>i acc. sv_set acc i (max (sv_get acc i) (sv_get other i))) (map fst other) this"

definition listOlderThan :: "state_vector \<Rightarrow> state_vector \<Rightarrow> SyncUpdate list" where
  "listOlderThan this other =
     map (\<lambda>i. \<lparr>id' = i, loSeqNum = sv_get this i + 1, hiSeqNum = sv_get other i\<rparr>)
       (filter (\<lambda>i. sv_get this i < sv_get other i) (map fst other))"

text \<open>The contents of a vector, as \<open>toJSON\<close> exposes them: which ids are present, with which value.\<close>

definition toJSON :: "state_vector \<Rightarrow> (name \<rightharpoonup> nat)" where
  "toJSON v = map_of v"

section \<open>SvSync: the steady/suppression engine\<close>

text \<open>
  The engine's mutable fields are \<open>own\<close>, \<open>aggregated\<close> (undefined in steady state) and the
  pending \<open>timer\<close>. A timer is recorded by the delay it was armed with: zero (immediate), a
  draw of \<open>suppressionTimer()\<close> or a draw of \<open>steadyTimer()\<close>; the random jitter itself is
  not modelled. \<open>has_verifier\<close> says whether the optional verifier is configured, and
  \<open>producer_open\<close> whether the Interest handler is still registered. Every handler
  returns the new state together with the effects it had, in order: timers cancelled and
  armed, sync Interests sent (with the vector they carry) and updates dispatched. The
  \<open>debug\<close> events, which change nothing, are left out.
\<close>

datatype delay = Immediate | SuppressionTimer | SteadyTimer

datatype error =
    VerifyError
  | DecodeError
  | ConsumeError
  | AssertionError
  | TypeError
  | RangeError

datatype effect =
    ClearTimeout
  | SetTimeout delay
  | SendSyncInterest state_vector
  | Update SyncUpdate

record SvSync =
  own :: state_vector
  aggregated :: "state_vector option"
  timer :: "delay option"
  has_verifier :: bool
  producer_open :: bool

text \<open>
  An incoming sync Interest, reduced to what the handler reads: whether its signature
  would verify, and what \<open>SvStateVector.fromComponent\<close> makes of the name component after the
  sync prefix (\<open>None\<close> when decoding throws).
\<close>

record sync_interest =
  sig_valid :: bool
  recv_vector :: "state_vector option"

definition SvSync_new :: "bool \<Rightarrow> SvSync" where
  "SvSync_new v =
     \<lparr>own = [], aggregated = None, timer = None, has_verifier = v, producer_open = True\<rparr>"

definition close :: "SvSync \<Rightarrow> SvSync \<times> effect list" where
  "close s = (s\<lparr>timer := None, producer_open := False\<rparr>, [ClearTimeout])"

definition resetTimer :: "bool \<Rightarrow> SvSync \<Rightarrow> SvSync \<times> effect list" where
  "resetTimer immediate s =
     (let d = (if immediate then Immediate
               else if aggregated s \<noteq> None then SuppressionTimer else SteadyTimer)
      in (s\<lparr>timer := Some d\<rparr>, [ClearTimeout, SetTimeout d]))"

definition sendSyncInterest :: "SvSync \<Rightarrow> effect list" where
  "sendSyncInterest s = [SendSyncInterest (own s)]"

definition handlePublish :: "SvSync \<Rightarrow> SvSync \<times> effect list" where
  "handlePublish s = resetTimer True s"

definition handleSyncInterest :: "SvSync \<Rightarrow> sync_interest \<Rightarrow> error + SvSync \<times> effect list" where
  "handleSyncInterest s interest =
     (if has_verifier s \<and> \<not> sig_valid interest then Inl VerifyError
      else case recv_vector interest of
        None \<Rightarrow> Inl DecodeError
      | Some recv \<Rightarrow>
          (let ourOlder = listOlderThan (own s) recv;
               ourNewer = listOlderThan recv (own s);
               s1 = s\<lparr>own := mergeFrom (own s) recv\<rparr>;
               updates = map Update ourOlder
           in case aggregated s1 of
                Some agg \<Rightarrow> Inr (s1\<lparr>aggregated := Some (mergeFrom agg recv)\<rparr>, updates)
              | None \<Rightarrow>
                  if ourNewer \<noteq> [] then
                    (let (s2, fx) = resetTimer False (s1\<lparr>aggregated := Some recv\<rparr>)
                     in Inr (s2, updates @ fx))
                  else
                    (let (s2, fx) = resetTimer False s1 in Inr (s2, updates @ fx))))"

definition handleTimer :: "SvSync \<Rightarrow> SvSync \<times> effect list" where
  "handleTimer s =
     (case aggregated s of
        Some agg \<Rightarrow>
          (let ourNewer = listOlderThan agg (own s);
               sent = (if ourNewer \<noteq> [] then sendSyncInterest s else []);
               (s2, fx) = resetTimer False (s\<lparr>aggregated := None\<rparr>)
           in (s2, sent @ fx))
      | None \<Rightarrow>
          (let sent = sendSyncInterest s;
               (s2, fx) = resetTimer False s
           in (s2, sent @ fx)))"

subsection \<open>SvSyncNode\<close>

definition seqNum :: "SvSync \<Rightarrow> name \<Rightarrow> nat" where
  "seqNum s i = sv_get (own s) i"

definition set_seqNum :: "SvSync \<Rightarrow> name \<Rightarrow> nat \<Rightarrow> SvSync \<times> effect list" where
  "set_seqNum s i n =
     (if n \<le> seqNum s i then (s, [])
      else handlePublish (s\<lparr>own := sv_set (own s) i n\<rparr>))"

subsection \<open>The engine's step relation\<close>

text \<open>
  The states the engine can be in: it starts from its constructor and moves by an inbound
  sync Interest that the handler accepts (while the handler is registered), by the pending
  timer firing, by a local publish through a sync node, or by \<open>close\<close>.
\<close>

inductive reachable :: "SvSync \<Rightarrow> bool" where
  r_new: "reachable (SvSync_new v)"
| r_interest: "reachable s \<Longrightarrow> producer_open s \<Longrightarrow>
     handleSyncInterest s interest = Inr (s', fx) \<Longrightarrow> reachable s'"
| r_timer: "reachable s \<Longrightarrow> timer s \<noteq> None \<Longrightarrow> handleTimer s = (s', fx) \<Longrightarrow> reachable s'"
| r_publish: "reachable s \<Longrightarrow> set_seqNum s i n = (s', fx) \<Longrightarrow> reachable s'"
| r_close: "reachable s \<Longrightarrow> close s = (s', fx) \<Longrightarrow> reachable s'"


section \<open>SVS-PS subscriber\<close>

subsection \<open>Collaborators outside the sources\<close>

text \<open>
  Modelled from the spec: \<open>SyncUpdate.seqNums()\<close> (\<open>../types\<close> is absent) enumerates the
  contiguous, inclusive range of sequence numbers from \<open>loSeqNum\<close> to \<open>hiSeqNum\<close>.
\<close>

definition seqNums :: "SyncUpdate \<Rightarrow> nat list" where
  "seqNums u = [loSeqNum u ..< Suc (hiSeqNum u)]"

text \<open>
  Modelled from the spec: \<open>batch\<close> comes from the streaming-iterables library, which is not
  among the sources. The mapping is retrieved in batches of a configurable size: consecutive
  items are collected into an array that is handed on as soon as it holds that many items,
  and what is left at the end of the input is handed on as a last, shorter array.
\<close>

fun batch_loop :: "nat \<Rightarrow> 'a list \<Rightarrow> 'a list \<Rightarrow> 'a list list" where
  "batch_loop n [] cur = (if cur = [] then [] else [cur])"
| "batch_loop n (x # xs) cur =
     (if length (cur @ [x]) = n then (cur @ [x]) # batch_loop n xs []
      else batch_loop n xs (cur @ [x]))"

definition batch :: "nat \<Rightarrow> 'a list \<Rightarrow> 'a list list" where
  "batch n xs = batch_loop n xs []"

text \<open>
  Modelled from the spec: the constants of \<open>./an\<close>, which is absent: the version marker
  that an inner name may carry, and the keyword component of mapping requests.
\<close>

definition Version0 :: component where
  "Version0 = VersionComp 0"

definition MappingKeyword :: component where
  "MappingKeyword = KeywordComp ''MAPPING''"

text \<open>
  A JavaScript array with holes: \<open>None\<close> is an index that was never written. Writing past
  the end extends the array with holes; assigning \<open>length\<close> truncates or extends it.
\<close>

definition js_array_set :: "'a option list \<Rightarrow> nat \<Rightarrow> 'a \<Rightarrow> 'a option list" where
  "js_array_set xs i v =
     (if i < length xs then xs[i := Some v]
      else xs @ replicate (i - length xs) None @ [Some v])"

definition js_set_length :: "'a option list \<Rightarrow> nat \<Rightarrow> 'a option list" where
  "js_set_length xs n = take n xs @ replicate (n - length xs) None"

text \<open>
  Modelled from the spec: \<open>concatBuffers\<close> (\<open>@ndn/util\<close>, absent) concatenates the buffers
  in index order into one contiguous buffer of the given total length. Each buffer is
  copied at the running offset; a hole in the array is not a buffer (a TypeError), and a
  buffer that does not fit into what is left of the output is a RangeError.
\<close>

fun concat_loop :: "bytes option list \<Rightarrow> nat \<Rightarrow> bytes \<Rightarrow> error + bytes" where
  "concat_loop [] offset output = Inr output"
| "concat_loop (None # rest) offset output = Inl TypeError"
| "concat_loop (Some buf # rest) offset output =
     (if length output < offset + length buf then Inl RangeError
      else concat_loop rest (offset + length buf)
             (take offset output @ buf @ drop (offset + length buf) output))"

definition concatBuffers :: "bytes option list \<Rightarrow> nat \<Rightarrow> error + bytes" where
  "concatBuffers arr totalLength = concat_loop arr 0 (replicate totalLength 0)"

subsection \<open>Subscriptions\<close>

text \<open>
  Modelled from the spec: \<open>SubscriptionTable\<close> (\<open>../detail/subscription-table\<close>) is absent. A
  subscription handle is an object with an identity and the topic it was made for. The
  table lists the handles whose topic is exactly a given name, counts its distinct topics
  (\<open>dimension\<close>) and delivers an update to every handle of a collection exactly once.
\<close>

record subscription =
  sub_key :: nat
  topic :: name

record update =
  u_publisher :: name
  u_seqNum :: nat
  u_name :: name
  u_payload :: bytes

text \<open>A delivery names the table whose \<open>update\<close> method raised it.\<close>

datatype delivery =
    PublisherDelivery subscription update
  | NameDelivery subscription update

type_synonym subscription_table = "subscription list"

definition st_subscribe :: "subscription_table \<Rightarrow> nat \<Rightarrow> name \<Rightarrow> subscription_table \<times> subscription" where
  "st_subscribe tbl k t = (tbl @ [\<lparr>sub_key = k, topic = t\<rparr>], \<lparr>sub_key = k, topic = t\<rparr>)"

definition st_list :: "subscription_table \<Rightarrow> name \<Rightarrow> subscription list" where
  "st_list tbl t = filter (\<lambda>sub. topic sub = t) tbl"

definition dimension :: "subscription_table \<Rightarrow> nat" where
  "dimension tbl = length (remdups (map topic tbl))"

definition st_update ::
  "(subscription \<Rightarrow> update \<Rightarrow> delivery) \<Rightarrow> subscription list \<Rightarrow> update \<Rightarrow> delivery list" where
  "st_update tag subs u = map (\<lambda>sub. tag sub u) (remdups subs)"

text \<open>
  Modelled from the spec: \<open>lpm\<close> (\<open>@ndn/packet\<close>, absent) looks every prefix of the name up,
  the longest first, and yields what is found at each matching level.
\<close>

definition lpm :: "name \<Rightarrow> (name \<Rightarrow> 'e option) \<Rightarrow> 'e list" where
  "lpm nm get = List.map_filter get (rev (prefixes nm))"

subsection \<open>Packets and the network\<close>

text \<open>
  Modelled from the spec: a mapping entry (\<open>./mapping-entry\<close> is absent) gives, for one
  sequence number, the name of the publication.
\<close>

record mapping_entry =
  me_seqNum :: nat
  me_name :: name

type_synonym mapping = "nat \<rightharpoonup> mapping_entry"

text \<open>
  The inner Data as \<open>decap\<close> reads it: its name, its content and whether the inner
  verifier accepts it. The outer Data: its name and what decoding its content as Data
  gives (\<open>None\<close> when the decoder throws).
\<close>

record inner_data =
  in_name :: name
  in_content :: bytes
  in_sig_valid :: bool

record outer_data =
  out_name :: name
  out_inner :: "inner_data option"

text \<open>
  The network, as the answers it gives. A mapping Interest is answered by a failure
  (timeout, Nack, rejected signature) or by mapping Data, of which the decoder stores the
  entries in order and may fail after some of them. An outer Interest is answered by a
  failure or by outer Data. A segmented fetch delivers outer Data in arrival order and may
  fail after some of them.
\<close>

record network =
  consume_mapping :: "name \<Rightarrow> error + mapping_entry list \<times> error option"
  consume_outer :: "name \<Rightarrow> error + outer_data"
  fetch_unordered :: "name \<Rightarrow> outer_data list \<times> error option"

subsection \<open>SvSubscriber\<close>

record SvSubscriber =
  syncPrefix :: name
  nameSubs :: subscription_table
  nameFilters :: "nat \<rightharpoonup> (mapping_entry \<Rightarrow> bool)"
  publisherSubs :: subscription_table
  mappingBatch :: nat
  mustFilterByMapping :: bool
  next_key :: nat

datatype subscribe_info =
    SubscribePrefix name
  | SubscribePrefixFilter name "mapping_entry \<Rightarrow> bool"
  | SubscribePublisher name

fun subscribe :: "SvSubscriber \<Rightarrow> subscribe_info \<Rightarrow> SvSubscriber \<times> subscription" where
  "subscribe s (SubscribePublisher p) =
     (let (tbl, sub) = st_subscribe (publisherSubs s) (next_key s) p
      in (s\<lparr>publisherSubs := tbl, next_key := Suc (next_key s)\<rparr>, sub))"
| "subscribe s (SubscribePrefix t) =
     (let (tbl, sub) = st_subscribe (nameSubs s) (next_key s) t
      in (s\<lparr>nameSubs := tbl, next_key := Suc (next_key s)\<rparr>, sub))"
| "subscribe s (SubscribePrefixFilter t f) =
     (let (tbl, sub) = st_subscribe (nameSubs s) (next_key s) t
      in (s\<lparr>nameSubs := tbl, nameFilters := (nameFilters s)(sub_key sub \<mapsto> f),
            next_key := Suc (next_key s)\<rparr>, sub))"

text \<open>What the subscriber reports on its error channel.\<close>

datatype report =
    RetrieveMappingError name nat nat error
  | DispatchUpdateError name nat error

definition listNameSubs :: "SvSubscriber \<Rightarrow> name \<Rightarrow> mapping_entry option \<Rightarrow> subscription list" where
  "listNameSubs s nm entry =
     concat (map (\<lambda>subs. case entry of
                     Some e \<Rightarrow> filter (\<lambda>sub. case nameFilters s (sub_key sub) of
                                               Some f \<Rightarrow> f e
                                             | None \<Rightarrow> True) subs
                   | None \<Rightarrow> subs)
              (lpm nm (\<lambda>p. Some (st_list (nameSubs s) p))))"

text \<open>
  \<open>retrieveMapping\<close>: one Interest per batch of sequence numbers, named by the first and
  the last number of the batch. The result is the mapping, the errors reported and the
  names of the Interests sent. The batches are taken in order.
\<close>

fun mapping_loop ::
  "SvSubscriber \<Rightarrow> network \<Rightarrow> name \<Rightarrow> nat list list \<Rightarrow> mapping \<times> report list \<times> name list
     \<Rightarrow> error + mapping \<times> report list \<times> name list" where
  "mapping_loop s net pid [] acc = Inr acc"
| "mapping_loop s net pid ([] # rest) acc = Inl TypeError"
| "mapping_loop s net pid ((lo # his) # rest) (m, reports, sent) =
     (let hi = last (lo # his);
          interest = pid @ syncPrefix s @ [MappingKeyword, GenericNumber lo, GenericNumber hi]
      in case consume_mapping net interest of
           Inl err \<Rightarrow>
             mapping_loop s net pid rest
               (m, reports @ [RetrieveMappingError pid lo hi err], sent @ [interest])
         | Inr (entries, failure) \<Rightarrow>
             (let m' = fold (\<lambda>e acc. acc(me_seqNum e \<mapsto> e)) entries m
              in case failure of
                   None \<Rightarrow> mapping_loop s net pid rest (m', reports, sent @ [interest])
                 | Some err \<Rightarrow>
                     mapping_loop s net pid rest
                       (m', reports @ [RetrieveMappingError pid lo hi err], sent @ [interest])))"

definition retrieveMapping ::
  "SvSubscriber \<Rightarrow> network \<Rightarrow> SyncUpdate \<Rightarrow> error + mapping \<times> report list \<times> name list" where
  "retrieveMapping s net upd =
     mapping_loop s net (id' upd) (batch (mappingBatch s) (seqNums upd)) (Map.empty, [], [])"

text \<open>
  \<open>decap\<close> is a closure over \<open>name\<close> and \<open>nameSubs\<close>, which it sets on first use; the pair is
  passed in and handed back. The result \<open>None\<close> is the closure's \<open>false\<close>.
\<close>

type_synonym decap_state = "name option \<times> subscription list option"

definition strip_version :: "name \<Rightarrow> name" where
  "strip_version nm =
     (if 2 \<le> length nm \<and> nm ! (length nm - 2) = Version0 then take (length nm - 2) nm else nm)"

definition decap ::
  "SvSubscriber \<Rightarrow> subscription list \<Rightarrow> nat \<Rightarrow> mapping option \<Rightarrow> decap_state \<Rightarrow> outer_data
     \<Rightarrow> error + decap_state \<times> inner_data option" where
  "decap s pubSubs n mapping st outer =
     (case out_inner outer of
        None \<Rightarrow> Inl DecodeError
      | Some inner \<Rightarrow>
          if \<not> in_sig_valid inner then Inl VerifyError
          else
            (let nm = (case fst st of Some nm0 \<Rightarrow> nm0 | None \<Rightarrow> strip_version (in_name inner));
                 subs = (case snd st of
                           Some subs0 \<Rightarrow> subs0
                         | None \<Rightarrow> listNameSubs s nm (case mapping of None \<Rightarrow> None | Some m \<Rightarrow> m n))
             in if subs = [] \<and> pubSubs = [] then Inr ((Some nm, Some subs), None)
                else Inr ((Some nm, Some subs), Some inner)))"

fun segment_loop ::
  "SvSubscriber \<Rightarrow> subscription list \<Rightarrow> nat \<Rightarrow> mapping option \<Rightarrow> outer_data list
     \<Rightarrow> decap_state \<times> bytes option list \<times> nat \<times> nat
     \<Rightarrow> error + decap_state \<times> bytes option list \<times> nat \<times> nat" where
  "segment_loop s pubSubs n mapping [] acc = Inr acc"
| "segment_loop s pubSubs n mapping (outer # rest) (st, segments, nSegments, totalLength) =
     (case decap s pubSubs n mapping st outer of
        Inl err \<Rightarrow> Inl err
      | Inr (st', None) \<Rightarrow> Inl AssertionError
      | Inr (st', Some inner) \<Rightarrow>
          (if in_name inner = [] then Inl TypeError
           else case last (in_name inner) of
                  SegmentComp segNum \<Rightarrow>
                    segment_loop s pubSubs n mapping rest
                      (st', js_array_set segments segNum (in_content inner), Suc nSegments,
                       totalLength + length (in_content inner))
                | _ \<Rightarrow> Inl AssertionError))"

definition retrieveSegmented ::
  "SvSubscriber \<Rightarrow> network \<Rightarrow> subscription list \<Rightarrow> nat \<Rightarrow> mapping option \<Rightarrow> name \<Rightarrow> decap_state
     \<Rightarrow> error + decap_state \<times> bytes" where
  "retrieveSegmented s net pubSubs n mapping outerPrefix st =
     (let (arrivals, failure) = fetch_unordered net (outerPrefix @ [Version0])
      in case segment_loop s pubSubs n mapping arrivals (st, [], 0, 0) of
           Inl err \<Rightarrow> Inl err
         | Inr (st', segments, nSegments, totalLength) \<Rightarrow>
             (case failure of
                Some err \<Rightarrow> Inl err
              | None \<Rightarrow>
                  (case concatBuffers (js_set_length segments nSegments) totalLength of
                     Inl err \<Rightarrow> Inl err
                   | Inr payload \<Rightarrow> Inr (st', payload))))"

definition dispatch_decapped ::
  "SvSubscriber \<Rightarrow> network \<Rightarrow> name \<Rightarrow> subscription list \<Rightarrow> nat \<Rightarrow> mapping option
     \<Rightarrow> subscription list option \<Rightarrow> error + delivery list" where
  "dispatch_decapped s net pub pubSubs n mapping nameSubs0 =
     (let outerPrefix = pub @ syncPrefix s @ [GenericNumber n]
      in case consume_outer net outerPrefix of
           Inl err \<Rightarrow> Inl err
         | Inr outer \<Rightarrow>
             (case decap s pubSubs n mapping (None, nameSubs0) outer of
                Inl err \<Rightarrow> Inl err
              | Inr (st, None) \<Rightarrow> Inr []
              | Inr (st, Some inner) \<Rightarrow>
                  (case (if out_name outer = outerPrefix then Inr (st, in_content inner)
                         else retrieveSegmented s net pubSubs n mapping outerPrefix st) of
                     Inl err \<Rightarrow> Inl err
                   | Inr ((Some nm, Some subs), payload) \<Rightarrow>
                       (let u = \<lparr>u_publisher = pub, u_seqNum = n, u_name = nm,
                                 u_payload = payload\<rparr>
                        in Inr (st_update PublisherDelivery pubSubs u
                                @ st_update NameDelivery subs u))
                   | Inr (_, payload) \<Rightarrow> Inl TypeError)))"

definition dispatchUpdate ::
  "SvSubscriber \<Rightarrow> network \<Rightarrow> name \<Rightarrow> subscription list \<Rightarrow> nat \<Rightarrow> mapping option
     \<Rightarrow> error + delivery list" where
  "dispatchUpdate s net pub pubSubs n mapping =
     (case (if pubSubs = [] then mapping else None) of
        Some m \<Rightarrow>
          (case m n of
             None \<Rightarrow> Inr []
           | Some entry \<Rightarrow>
               (let subs = listNameSubs s (me_name entry) (Some entry)
                in if subs = [] then Inr []
                   else dispatch_decapped s net pub pubSubs n mapping (Some subs)))
      | None \<Rightarrow> dispatch_decapped s net pub pubSubs n mapping None)"

text \<open>
  \<open>handleSyncUpdate\<close>: the mapping is retrieved when there is a name subscription and
  either no publisher subscription for the update's id or \<open>mustFilterByMapping\<close>; then
  every sequence number of the range is dispatched inside its own try/catch. The result
  is what was delivered and what was reported.
\<close>

fun dispatch_loop ::
  "SvSubscriber \<Rightarrow> network \<Rightarrow> name \<Rightarrow> subscription list \<Rightarrow> mapping option \<Rightarrow> nat list
     \<Rightarrow> delivery list \<times> report list \<Rightarrow> delivery list \<times> report list" where
  "dispatch_loop s net pub pubSubs mapping [] out = out"
| "dispatch_loop s net pub pubSubs mapping (n # rest) (delivered, reports) =
     (case dispatchUpdate s net pub pubSubs n mapping of
        Inl err \<Rightarrow>
          dispatch_loop s net pub pubSubs mapping rest
            (delivered, reports @ [DispatchUpdateError pub n err])
      | Inr ds \<Rightarrow> dispatch_loop s net pub pubSubs mapping rest (delivered @ ds, reports))"

definition handleSyncUpdate ::
  "SvSubscriber \<Rightarrow> network \<Rightarrow> SyncUpdate \<Rightarrow> error + delivery list \<times> report list" where
  "handleSyncUpdate s net upd =
     (let pubSubs = st_list (publisherSubs s) (id' upd)
      in if dimension (nameSubs s) \<noteq> 0 \<and> (pubSubs = [] \<or> mustFilterByMapping s) then
           (case retrieveMapping s net upd of
              Inl err \<Rightarrow> Inl err
            | Inr (m, reports, sent) \<Rightarrow>
                Inr (dispatch_loop s net (id' upd) pubSubs (Some m) (seqNums upd) ([], reports)))
         else Inr (dispatch_loop s net (id' upd) pubSubs None (seqNums upd) ([], [])))"

subsection \<open>Example configurations\<close>

text \<open>
  A filter that rejects every mapping entry, and a network that answers every mapping
  Interest with the entry of sequence number 1, every outer Interest with unsegmented
  outer Data named as requested, and every segmented fetch with three segments that arrive
  in the order 2, 0, 1. The flaky network answers every mapping Interest with the entries
  of the sequence numbers 1, 2 and 3, and fails the outer Interest of sequence number 2.
\<close>

definition reject_all :: "mapping_entry \<Rightarrow> bool" where
  "reject_all e = False"

definition example_mapping_reply :: "name \<Rightarrow> error + mapping_entry list \<times> error option" where
  "example_mapping_reply n =
     Inr ([\<lparr>me_seqNum = 1, me_name = [GenericComp ''t'', GenericComp ''x'']\<rparr>], None)"

definition example_outer_reply :: "name \<Rightarrow> error + outer_data" where
  "example_outer_reply n =
     Inr \<lparr>out_name = n,
          out_inner = Some \<lparr>in_name = [GenericComp ''t'', GenericComp ''x''],
                            in_content = [1, 2, 3], in_sig_valid = True\<rparr>\<rparr>"

definition example_content :: "nat \<Rightarrow> bytes" where
  "example_content i = (if i = 0 then [10, 11] else if i = 1 then [20] else [30, 31, 32])"

definition example_segment :: "nat \<Rightarrow> outer_data" where
  "example_segment i =
     \<lparr>out_name = [GenericComp ''P'', GenericComp ''sync'', GenericNumber 7, VersionComp 0,
                  SegmentComp i],
      out_inner = Some \<lparr>in_name = [GenericComp ''t'', GenericComp ''x'', VersionComp 0,
                                   SegmentComp i],
                        in_content = example_content i, in_sig_valid = True\<rparr>\<rparr>"

definition example_fetch :: "name \<Rightarrow> outer_data list \<times> error option" where
  "example_fetch n = ([example_segment 2, example_segment 0, example_segment 1], None)"

definition example_network :: network where
  "example_network =
     \<lparr>consume_mapping = example_mapping_reply, consume_outer = example_outer_reply,
      fetch_unordered = example_fetch\<rparr>"

definition flaky_outer_reply :: "name \<Rightarrow> error + outer_data" where
  "flaky_outer_reply n =
     (if n = [GenericComp ''P'', GenericComp ''sync'', GenericNumber 2] then Inl ConsumeError
      else example_outer_reply n)"

definition range_mapping_reply :: "name \<Rightarrow> error + mapping_entry list \<times> error option" where
  "range_mapping_reply n =
     Inr ([\<lparr>me_seqNum = 1, me_name = [GenericComp ''t'', GenericComp ''x'']\<rparr>,
           \<lparr>me_seqNum = 2, me_name = [GenericComp ''t'', GenericComp ''x'']\<rparr>,
           \<lparr>me_seqNum = 3, me_name = [GenericComp ''t'', GenericComp ''x'']\<rparr>], None)"

definition flaky_network :: network where
  "flaky_network =
     \<lparr>consume_mapping = range_mapping_reply, consume_outer = flaky_outer_reply,
      fetch_unordered = example_fetch\<rparr>"

text \<open>The invariant of suppression state: own is at least aggregated on every id.\<close>

definition suppression_inv :: "SvSync \<Rightarrow> bool" where
  "suppression_inv s =
     (\<forall>agg. aggregated s = Some agg \<longrightarrow> (\<forall>i. sv_get agg i \<le> sv_get (own s) i))"

section \<open>Properties of the state vector\<close>

lemma map_of_sv_set: "map_of (sv_set v i n) = (map_of v)(i \<mapsto> n)"
  by (simp add: sv_set_def update_conv')

lemma sv_get_sv_set: "sv_get (sv_set v i n) j = (if j = i then n else sv_get v j)"
  by (simp add: sv_get_def map_of_sv_set)

lemma sv_get_absent: "i \<notin> fst ` set v \<Longrightarrow> sv_get v i = 0"
  by (simp add: sv_get_def map_of_eq_None_iff [THEN iffD2])

lemma map_of_present: "i \<in> fst ` set v \<Longrightarrow> map_of v i = Some (sv_get v i)"
  by (cases "map_of v i") (auto simp: sv_get_def map_of_eq_None_iff)

lemma map_of_absent: "i \<notin> fst ` set v \<Longrightarrow> map_of v i = None"
  by (simp add: map_of_eq_None_iff)

lemma map_of_merge_fold:
  "map_of (fold (\<lambda>i acc. sv_set acc i (max (sv_get acc i) (sv_get other i))) ks this) k =
     (if k \<in> set ks then Some (max (sv_get this k) (sv_get other k)) else map_of this k)"
proof (induction ks arbitrary: this)
  case Nil
  show ?case by simp
next
  case (Cons a ks)
  show ?case
    by (simp add: Cons.IH map_of_sv_set sv_get_sv_set)
qed

lemma map_of_mergeFrom:
  "map_of (mergeFrom this other) k =
     (if k \<in> fst ` set other then Some (max (sv_get this k) (sv_get other k)) else map_of this k)"
  by (simp add: mergeFrom_def map_of_merge_fold)

lemma sv_get_mergeFrom: "sv_get (mergeFrom this other) k = max (sv_get this k) (sv_get other k)"
proof (cases "k \<in> fst ` set other")
  case True
  then show ?thesis by (simp add: sv_get_def [of "mergeFrom this other"] map_of_mergeFrom)
next
  case False
  then have "sv_get other k = 0" by (rule sv_get_absent)
  with False show ?thesis by (simp add: sv_get_def [of "mergeFrom this other"] map_of_mergeFrom sv_get_def [of this])
qed

lemma keys_mergeFrom_iff:
  "map_of (mergeFrom this other) k = None \<longleftrightarrow> map_of this k = None \<and> map_of other k = None"
  by (auto simp: map_of_mergeFrom map_of_eq_None_iff)

lemma toJSON_merge_commute: "toJSON (mergeFrom a b) = toJSON (mergeFrom b a)"
proof
  fix k
  show "toJSON (mergeFrom a b) k = toJSON (mergeFrom b a) k"
    by (auto simp: toJSON_def map_of_mergeFrom map_of_present map_of_absent sv_get_absent max.commute)
qed

lemma toJSON_merge_assoc:
  "toJSON (mergeFrom (mergeFrom a b) c) = toJSON (mergeFrom a (mergeFrom b c))"
proof
  fix k
  have keys: "k \<in> fst ` set (mergeFrom b c) \<longleftrightarrow> k \<in> fst ` set b \<or> k \<in> fst ` set c"
    using keys_mergeFrom_iff [of b c k] by (auto simp: map_of_eq_None_iff)
  show "toJSON (mergeFrom (mergeFrom a b) c) k = toJSON (mergeFrom a (mergeFrom b c)) k"
    by (auto simp: toJSON_def map_of_mergeFrom keys sv_get_mergeFrom sv_get_absent map_of_absent map_of_present max.assoc)
qed

lemma toJSON_merge_idem: "toJSON (mergeFrom a a) = toJSON a"
proof
  fix k
  show "toJSON (mergeFrom a a) k = toJSON a k"
    by (auto simp: toJSON_def map_of_mergeFrom map_of_present)
qed

lemma listOlderThan_empty_iff:
  "listOlderThan this other = [] \<longleftrightarrow> (\<forall>i. sv_get other i \<le> sv_get this i)"
proof
  assume e: "listOlderThan this other = []"
  show "\<forall>i. sv_get other i \<le> sv_get this i"
  proof
    fix i
    show "sv_get other i \<le> sv_get this i"
    proof (cases "i \<in> fst ` set other")
      case True
      with e show ?thesis
        by (auto simp: listOlderThan_def filter_empty_conv not_less)
    next
      case False
      then show ?thesis by (simp add: sv_get_absent)
    qed
  qed
next
  assume "\<forall>i. sv_get other i \<le> sv_get this i"
  then show "listOlderThan this other = []"
    by (auto simp: listOlderThan_def filter_empty_conv not_less)
qed

lemma listOlderThan_nonempty_iff:
  "listOlderThan this other \<noteq> [] \<longleftrightarrow> (\<exists>i. sv_get this i < sv_get other i)"
  by (auto simp: listOlderThan_empty_iff not_le)

text \<open>
  Claim C4: the pointwise-max merge is commutative, associative and idempotent. Two vectors
  are compared by their contents (the same ids with the same values); the order in which
  the ids were inserted is not part of a vector's value.
\<close>

theorem mergeFrom_semilattice:
  "toJSON (mergeFrom a b) = toJSON (mergeFrom b a)
   \<and> toJSON (mergeFrom (mergeFrom a b) c) = toJSON (mergeFrom a (mergeFrom b c))
   \<and> toJSON (mergeFrom a a) = toJSON a"
  using toJSON_merge_commute toJSON_merge_assoc toJSON_merge_idem by blast

section \<open>Properties of the engine\<close>

text \<open>
  Claim C1, as the code has it: when the timer fires in suppression state the engine sends
  its own vector if and only if \<open>aggregated.listOlderThan(own)\<close> is non-empty, that is, if
  own exceeds aggregated on some id. In both cases \<open>aggregated\<close> is cleared and the steady
  timer is armed.
\<close>

theorem handleTimer_suppression:
  assumes "aggregated s = Some agg"
  shows "handleTimer s =
           (s\<lparr>aggregated := None, timer := Some SteadyTimer\<rparr>,
            (if listOlderThan agg (own s) \<noteq> [] then [SendSyncInterest (own s)] else [])
              @ [ClearTimeout, SetTimeout SteadyTimer])
         \<and> (listOlderThan agg (own s) \<noteq> [] \<longleftrightarrow> (\<exists>i. sv_get agg i < sv_get (own s) i))"
  using assms
  by (simp add: handleTimer_def resetTimer_def sendSyncInterest_def listOlderThan_nonempty_iff)

theorem handleTimer_suppression_witness:
  "aggregated \<lparr>own = [([GenericComp ''A''], 5)], aggregated = Some [([GenericComp ''A''], 3)], timer = Some SuppressionTimer, has_verifier = False, producer_open = True\<rparr>
     = Some [([GenericComp ''A''], 3)]
   \<and> handleTimer \<lparr>own = [([GenericComp ''A''], 5)], aggregated = Some [([GenericComp ''A''], 3)], timer = Some SuppressionTimer, has_verifier = False, producer_open = True\<rparr>
     = (\<lparr>own = [([GenericComp ''A''], 5)], aggregated = None, timer = Some SteadyTimer, has_verifier = False, producer_open = True\<rparr>,
        [SendSyncInterest [([GenericComp ''A''], 5)], ClearTimeout, SetTimeout SteadyTimer])"
  using handleTimer_suppression
    [of "\<lparr>own = [([GenericComp ''A''], 5)], aggregated = Some [([GenericComp ''A''], 3)], timer = Some SuppressionTimer, has_verifier = False, producer_open = True\<rparr>"
        "[([GenericComp ''A''], 3)]"]
  by (simp add: listOlderThan_def sv_get_def)

text \<open>
  Claim C1 as stated fails: with own = {A:5} and aggregated = {A:3},
  \<open>own.listOlderThan(aggregated)\<close> is empty and yet the timer handler sends a sync Interest.
\<close>

theorem handleTimer_sends_when_own_not_older:
  "listOlderThan [([GenericComp ''A''], 5)] [([GenericComp ''A''], 3)] = []
   \<and> snd (handleTimer \<lparr>own = [([GenericComp ''A''], 5)], aggregated = Some [([GenericComp ''A''], 3)], timer = Some SuppressionTimer, has_verifier = False, producer_open = True\<rparr>)
       = [SendSyncInterest [([GenericComp ''A''], 5)], ClearTimeout, SetTimeout SteadyTimer]"
  by (simp add: handleTimer_def resetTimer_def sendSyncInterest_def listOlderThan_def sv_get_def)

text \<open>
  Claim C2: a steady engine with own = {A:5} that receives {A:3} emits no update, enters
  suppression with aggregated = {A:3} and arms the suppression timer; when that timer fires,
  exactly one sync Interest is sent, carrying {A:5}, and the engine is steady again.
\<close>

theorem scenario_own_ahead:
  "handleSyncInterest \<lparr>own = [([GenericComp ''A''], 5)], aggregated = None, timer = t, has_verifier = hv, producer_open = True\<rparr>
      \<lparr>sig_valid = True, recv_vector = Some [([GenericComp ''A''], 3)]\<rparr>
    = Inr (\<lparr>own = [([GenericComp ''A''], 5)], aggregated = Some [([GenericComp ''A''], 3)], timer = Some SuppressionTimer, has_verifier = hv, producer_open = True\<rparr>,
           [ClearTimeout, SetTimeout SuppressionTimer])
   \<and> handleTimer \<lparr>own = [([GenericComp ''A''], 5)], aggregated = Some [([GenericComp ''A''], 3)], timer = Some SuppressionTimer, has_verifier = hv, producer_open = True\<rparr>
    = (\<lparr>own = [([GenericComp ''A''], 5)], aggregated = None, timer = Some SteadyTimer, has_verifier = hv, producer_open = True\<rparr>,
       [SendSyncInterest [([GenericComp ''A''], 5)], ClearTimeout, SetTimeout SteadyTimer])"
  by (simp add: handleSyncInterest_def handleTimer_def resetTimer_def sendSyncInterest_def
      listOlderThan_def mergeFrom_def sv_get_def sv_set_def)

text \<open>
  Claim C6: assigning \<open>seqNum = n\<close> with n not above the current value changes nothing and
  has no effect at all (no timer is cancelled or scheduled); an assignment with n above the
  current value changes the own vector, stores n and schedules an immediate timer.
\<close>

theorem set_seqNum_monotone:
  "(n \<le> seqNum s i \<longrightarrow> set_seqNum s i n = (s, []))
   \<and> (seqNum s i < n \<longrightarrow>
        own (fst (set_seqNum s i n)) \<noteq> own s \<and> seqNum (fst (set_seqNum s i n)) i = n
        \<and> snd (set_seqNum s i n) = [ClearTimeout, SetTimeout Immediate])"
proof -
  have "sv_set (own s) i n \<noteq> own s" if "seqNum s i < n"
  proof
    assume "sv_set (own s) i n = own s"
    then have "sv_get (sv_set (own s) i n) i = sv_get (own s) i" by simp
    with that show False by (simp add: sv_get_sv_set seqNum_def)
  qed
  then show ?thesis
    by (simp add: set_seqNum_def handlePublish_def resetTimer_def seqNum_def sv_get_sv_set)
qed

theorem set_seqNum_monotone_witness:
  "(4::nat) \<le> seqNum \<lparr>own = [([GenericComp ''A''], 5)], aggregated = None, timer = Some SteadyTimer, has_verifier = False, producer_open = True\<rparr> [GenericComp ''A'']
   \<and> set_seqNum \<lparr>own = [([GenericComp ''A''], 5)], aggregated = None, timer = Some SteadyTimer, has_verifier = False, producer_open = True\<rparr> [GenericComp ''A''] 4
       = (\<lparr>own = [([GenericComp ''A''], 5)], aggregated = None, timer = Some SteadyTimer, has_verifier = False, producer_open = True\<rparr>, [])
   \<and> seqNum \<lparr>own = [([GenericComp ''A''], 5)], aggregated = None, timer = Some SteadyTimer, has_verifier = False, producer_open = True\<rparr> [GenericComp ''A''] < 6
   \<and> seqNum (fst (set_seqNum \<lparr>own = [([GenericComp ''A''], 5)], aggregated = None, timer = Some SteadyTimer, has_verifier = False, producer_open = True\<rparr> [GenericComp ''A''] 6))
         [GenericComp ''A''] = 6"
  using set_seqNum_monotone
      [of 4 "\<lparr>own = [([GenericComp ''A''], 5)], aggregated = None, timer = Some SteadyTimer, has_verifier = False, producer_open = True\<rparr>" "[GenericComp ''A'']"]
    set_seqNum_monotone
      [of 6 "\<lparr>own = [([GenericComp ''A''], 5)], aggregated = None, timer = Some SteadyTimer, has_verifier = False, producer_open = True\<rparr>" "[GenericComp ''A'']"]
  by (simp add: seqNum_def sv_get_def)

text \<open>
  Claim C7: a vector that the handler accepts while the engine is in suppression state is
  merged into \<open>aggregated\<close>; the engine stays in suppression, the pending timer is the one
  that was pending before, and the only effects are the updates for the ranges in which own
  was behind: no timer is cancelled or armed.
\<close>

theorem handleSyncInterest_in_suppression:
  assumes "aggregated s = Some agg" and "has_verifier s \<longrightarrow> sig_valid interest"
    and "recv_vector interest = Some recv"
  shows "handleSyncInterest s interest =
           Inr (s\<lparr>own := mergeFrom (own s) recv, aggregated := Some (mergeFrom agg recv)\<rparr>,
                map Update (listOlderThan (own s) recv))
         \<and> timer (s\<lparr>own := mergeFrom (own s) recv, aggregated := Some (mergeFrom agg recv)\<rparr>)
             = timer s
         \<and> ClearTimeout \<notin> set (map Update (listOlderThan (own s) recv))
         \<and> SetTimeout d \<notin> set (map Update (listOlderThan (own s) recv))"
  using assms by (auto simp: handleSyncInterest_def)

theorem handleSyncInterest_in_suppression_witness:
  "aggregated \<lparr>own = [([GenericComp ''A''], 5)], aggregated = Some [([GenericComp ''A''], 3)], timer = Some SuppressionTimer, has_verifier = True, producer_open = True\<rparr>
     = Some [([GenericComp ''A''], 3)]
   \<and> handleSyncInterest \<lparr>own = [([GenericComp ''A''], 5)], aggregated = Some [([GenericComp ''A''], 3)], timer = Some SuppressionTimer, has_verifier = True, producer_open = True\<rparr>
       \<lparr>sig_valid = True, recv_vector = Some [([GenericComp ''B''], 2), ([GenericComp ''A''], 4)]\<rparr>
     = Inr (\<lparr>own = [([GenericComp ''A''], 5), ([GenericComp ''B''], 2)],
             aggregated = Some [([GenericComp ''A''], 4), ([GenericComp ''B''], 2)],
             timer = Some SuppressionTimer, has_verifier = True, producer_open = True\<rparr>,
            [Update \<lparr>id' = [GenericComp ''B''], loSeqNum = 1, hiSeqNum = 2\<rparr>])"
  using handleSyncInterest_in_suppression
    [of "\<lparr>own = [([GenericComp ''A''], 5)], aggregated = Some [([GenericComp ''A''], 3)], timer = Some SuppressionTimer, has_verifier = True, producer_open = True\<rparr>"
        "[([GenericComp ''A''], 3)]"
        "\<lparr>sig_valid = True, recv_vector = Some [([GenericComp ''B''], 2), ([GenericComp ''A''], 4)]\<rparr>"
        "[([GenericComp ''B''], 2), ([GenericComp ''A''], 4)]"]
  by (simp add: listOlderThan_def mergeFrom_def sv_get_def sv_set_def)

subsection \<open>The suppression invariant\<close>

lemma inv_interest:
  assumes "suppression_inv s" and "handleSyncInterest s interest = Inr (s', fx)"
  shows "suppression_inv s'"
proof -
  from assms(2) obtain recv where recv: "recv_vector interest = Some recv"
    by (cases "recv_vector interest") (auto simp: handleSyncInterest_def split: if_splits)
  from assms(2) recv have ok: "\<not> (has_verifier s \<and> \<not> sig_valid interest)"
    by (auto simp: handleSyncInterest_def split: if_splits)
  show ?thesis
  proof (cases "aggregated s")
    case None
    with assms(2) recv ok have
      "s' = s\<lparr>own := mergeFrom (own s) recv, timer := Some SteadyTimer\<rparr> \<or>
       s' = s\<lparr>own := mergeFrom (own s) recv, aggregated := Some recv,
              timer := Some SuppressionTimer\<rparr>"
      by (auto simp: handleSyncInterest_def resetTimer_def Let_def split: if_splits)
    then show ?thesis
    proof
      assume "s' = s\<lparr>own := mergeFrom (own s) recv, timer := Some SteadyTimer\<rparr>"
      with None show ?thesis by (simp add: suppression_inv_def)
    next
      assume "s' = s\<lparr>own := mergeFrom (own s) recv, aggregated := Some recv,
              timer := Some SuppressionTimer\<rparr>"
      then show ?thesis by (simp add: suppression_inv_def sv_get_mergeFrom)
    qed
  next
    case (Some agg)
    with assms(2) recv ok have
      s': "s' = s\<lparr>own := mergeFrom (own s) recv, aggregated := Some (mergeFrom agg recv)\<rparr>"
      by (auto simp: handleSyncInterest_def Let_def)
    have "sv_get (mergeFrom agg recv) i \<le> sv_get (mergeFrom (own s) recv) i" for i
    proof -
      from assms(1) Some have "sv_get agg i \<le> sv_get (own s) i"
        by (simp add: suppression_inv_def)
      then show ?thesis unfolding sv_get_mergeFrom by (rule max.mono) simp
    qed
    then show ?thesis by (simp add: s' suppression_inv_def)
  qed
qed

lemma inv_timer: "handleTimer s = (s', fx) \<Longrightarrow> suppression_inv s'"
  by (auto simp: handleTimer_def resetTimer_def suppression_inv_def split: option.splits)

lemma inv_publish:
  assumes "suppression_inv s" and "set_seqNum s i n = (s', fx)"
  shows "suppression_inv s'"
proof (cases "n \<le> seqNum s i")
  case True
  with assms show ?thesis by (simp add: set_seqNum_def)
next
  case False
  with assms(2) have s': "s' = s\<lparr>own := sv_set (own s) i n, timer := Some Immediate\<rparr>"
    by (simp add: set_seqNum_def handlePublish_def resetTimer_def)
  show ?thesis
    unfolding suppression_inv_def
  proof (intro allI impI)
    fix agg j
    assume "aggregated s' = Some agg"
    with s' have "aggregated s = Some agg" by simp
    with assms(1) have le: "sv_get agg j \<le> sv_get (own s) j"
      by (simp add: suppression_inv_def)
    from False have n: "sv_get (own s) i < n" by (simp add: seqNum_def)
    show "sv_get agg j \<le> sv_get (own s') j"
    proof (cases "j = i")
      case True
      with le n show ?thesis by (simp add: s' sv_get_sv_set)
    next
      case False
      with le show ?thesis by (simp add: s' sv_get_sv_set)
    qed
  qed
qed

lemma inv_close: "suppression_inv s \<Longrightarrow> close s = (s', fx) \<Longrightarrow> suppression_inv s'"
  by (auto simp: close_def suppression_inv_def)

lemma reachable_inv: "reachable s \<Longrightarrow> suppression_inv s"
proof (induction rule: reachable.induct)
  case (r_new v)
  show ?case by (simp add: suppression_inv_def SvSync_new_def)
next
  case (r_interest s interest s' fx)
  then show ?case by (blast intro: inv_interest)
next
  case (r_timer s s' fx)
  then show ?case by (blast intro: inv_timer)
next
  case (r_publish s i n s' fx)
  then show ?case by (blast intro: inv_publish)
next
  case (r_close s s' fx)
  then show ?case by (blast intro: inv_close)
qed


text \<open>
  Claim C3: in every reachable state in which \<open>aggregated\<close> is defined, own is at least
  aggregated on every id, and so \<open>own.listOlderThan(aggregated)\<close> is empty.
\<close>

theorem own_dominates_aggregated:
  assumes "reachable s" and "aggregated s = Some agg"
  shows "(\<forall>i. sv_get agg i \<le> sv_get (own s) i) \<and> listOlderThan (own s) agg = []"
  using reachable_inv [OF assms(1)] assms(2)
  by (simp add: suppression_inv_def listOlderThan_empty_iff)

theorem own_dominates_aggregated_witness:
  "reachable \<lparr>own = [([GenericComp ''A''], 5)], aggregated = Some [([GenericComp ''A''], 3)], timer = Some SuppressionTimer, has_verifier = False, producer_open = True\<rparr>
   \<and> listOlderThan [([GenericComp ''A''], 5)] [([GenericComp ''A''], 3)] = []
   \<and> sv_get [([GenericComp ''A''], 3)] [GenericComp ''A''] \<le> sv_get [([GenericComp ''A''], 5)] [GenericComp ''A'']"
proof -
  have "set_seqNum (SvSync_new False) [GenericComp ''A''] 5
          = (\<lparr>own = [([GenericComp ''A''], 5)], aggregated = None, timer = Some Immediate, has_verifier = False, producer_open = True\<rparr>,
             [ClearTimeout, SetTimeout Immediate])"
    by (simp add: set_seqNum_def SvSync_new_def seqNum_def sv_get_def sv_set_def
        handlePublish_def resetTimer_def)
  from r_publish [OF r_new this]
  have r1: "reachable \<lparr>own = [([GenericComp ''A''], 5)], aggregated = None, timer = Some Immediate, has_verifier = False, producer_open = True\<rparr>" .
  have "handleSyncInterest \<lparr>own = [([GenericComp ''A''], 5)], aggregated = None, timer = Some Immediate, has_verifier = False, producer_open = True\<rparr>
          \<lparr>sig_valid = True, recv_vector = Some [([GenericComp ''A''], 3)]\<rparr>
        = Inr (\<lparr>own = [([GenericComp ''A''], 5)], aggregated = Some [([GenericComp ''A''], 3)], timer = Some SuppressionTimer, has_verifier = False, producer_open = True\<rparr>,
               [ClearTimeout, SetTimeout SuppressionTimer])"
    by (simp add: handleSyncInterest_def resetTimer_def listOlderThan_def mergeFrom_def
        sv_get_def sv_set_def)
  from r_interest [OF r1 _ this]
  have r2: "reachable \<lparr>own = [([GenericComp ''A''], 5)], aggregated = Some [([GenericComp ''A''], 3)], timer = Some SuppressionTimer, has_verifier = False, producer_open = True\<rparr>"
    by simp
  from own_dominates_aggregated [OF r2, of "[([GenericComp ''A''], 3)]"] r2
  show ?thesis by simp
qed

section \<open>Properties of the subscriber\<close>

subsection \<open>Batches and mapping requests\<close>


lemma batch_loop_nonempty: "r \<in> set (batch_loop n xs cur) \<Longrightarrow> r \<noteq> []"
  by (induction xs arbitrary: cur) (auto split: if_splits)



lemma mapping_loop_sent:
  "[] \<notin> set bs \<Longrightarrow>
   \<exists>m' reports'. mapping_loop s net pid bs (m, reports, sent) =
     Inr (m', reports', sent @ map (\<lambda>r. pid @ syncPrefix s @ [MappingKeyword, GenericNumber (hd r), GenericNumber (last r)]) bs)"
proof (induction bs arbitrary: m reports sent)
  case Nil
  show ?case by simp
next
  case (Cons b bs)
  then obtain lo his where b: "b = lo # his" by (cases b) auto
  define interest where
    "interest = pid @ syncPrefix s @ [MappingKeyword, GenericNumber lo, GenericNumber (last (lo # his))]"
  from Cons.prems have rest: "[] \<notin> set bs" by simp
  have step: "\<exists>m' reports'. mapping_loop s net pid bs (m1, reports1, sent @ [interest]) =
      Inr (m', reports', sent @ map (\<lambda>r. pid @ syncPrefix s @ [MappingKeyword, GenericNumber (hd r), GenericNumber (last r)]) (b # bs))"
    for m1 reports1
    using Cons.IH [OF rest, of m1 reports1 "sent @ [interest]"]
    by (simp add: b interest_def del: last.simps)
  show ?case
  proof (cases "consume_mapping net interest")
    case (Inl err)
    with step [of m "reports @ [RetrieveMappingError pid lo (last (lo # his)) err]"]
    show ?thesis by (simp add: b Let_def interest_def del: last.simps)
  next
    case (Inr reply)
    obtain entries failure where reply: "reply = (entries, failure)" by (cases reply)
    show ?thesis
    proof (cases failure)
      case None
      with Inr reply step [of "fold (\<lambda>e acc. acc(me_seqNum e \<mapsto> e)) entries m" reports]
      show ?thesis by (simp add: b Let_def interest_def del: last.simps)
    next
      case (Some err)
      with Inr reply step [of "fold (\<lambda>e acc. acc(me_seqNum e \<mapsto> e)) entries m"
          "reports @ [RetrieveMappingError pid lo (last (lo # his)) err]"]
      show ?thesis by (simp add: b Let_def interest_def del: last.simps)
    qed
  qed
qed

lemma retrieveMapping_total: "\<exists>m reports sent. retrieveMapping s net upd = Inr (m, reports, sent)"
proof -
  have ne: "[] \<notin> set (batch (mappingBatch s) (seqNums upd))"
    using batch_loop_nonempty by (fastforce simp: batch_def)
  from mapping_loop_sent [OF ne, of s net "id' upd" Map.empty "[]" "[]"]
  show ?thesis by (auto simp: retrieveMapping_def)
qed


lemma subscribe_filter_registered:
  assumes "subscribe s (SubscribePrefixFilter t f) = (s', sub)"
  shows "sub \<in> set (nameSubs s') \<and> nameFilters s' (sub_key sub) = Some f \<and> topic sub = t"
  using assms by (auto simp: st_subscribe_def)

lemmas subscriber_eval =
  handleSyncUpdate_def retrieveMapping_def batch_def dimension_def st_list_def seqNums_def
  dispatchUpdate_def dispatch_decapped_def retrieveSegmented_def decap_def strip_version_def
  Version0_def MappingKeyword_def listNameSubs_def lpm_def st_update_def concatBuffers_def
  js_array_set_def js_set_length_def Let_def
  example_network_def example_outer_reply_def example_mapping_reply_def example_fetch_def
  example_segment_def example_content_def reject_all_def






subsection \<open>Segment reassembly\<close>

lemma length_js_array_set: "length (js_array_set xs i v) = max (length xs) (Suc i)"
  by (simp add: js_array_set_def)

lemma nth_js_array_set:
  "j < length (js_array_set xs i v) \<Longrightarrow>
   js_array_set xs i v ! j = (if j = i then Some v else if j < length xs then xs ! j else None)"
  by (auto simp: js_array_set_def nth_append nth_Cons' not_less)

lemma length_place_ge: "length segs \<le> length (fold (\<lambda>i a. js_array_set a i (c i)) ps segs)"
proof (induction ps arbitrary: segs)
  case Nil
  show ?case by simp
next
  case (Cons p ps)
  have "length segs \<le> length (js_array_set segs p (c p))" by (simp add: length_js_array_set)
  also have "\<dots> \<le> length (fold (\<lambda>i a. js_array_set a i (c i)) ps (js_array_set segs p (c p)))"
    by (rule Cons.IH)
  finally show ?case by simp
qed

lemma length_place_gt:
  "i \<in> set ps \<Longrightarrow> i < length (fold (\<lambda>i a. js_array_set a i (c i)) ps segs)"
proof (induction ps arbitrary: segs)
  case Nil
  then show ?case by simp
next
  case (Cons p ps)
  show ?case
  proof (cases "i = p")
    case True
    have "i < length (js_array_set segs p (c p))" by (simp add: length_js_array_set True)
    also have "\<dots> \<le> length (fold (\<lambda>i a. js_array_set a i (c i)) ps (js_array_set segs p (c p)))"
      by (rule length_place_ge)
    finally show ?thesis by simp
  next
    case False
    with Cons.prems have "i \<in> set ps" by simp
    then show ?thesis by (simp add: Cons.IH)
  qed
qed

lemma length_place_le:
  "\<forall>i \<in> set ps. i < k \<Longrightarrow> length segs \<le> k \<Longrightarrow>
   length (fold (\<lambda>i a. js_array_set a i (c i)) ps segs) \<le> k"
proof (induction ps arbitrary: segs)
  case Nil
  then show ?case by simp
next
  case (Cons p ps)
  from Cons.prems have "length (js_array_set segs p (c p)) \<le> k"
    by (simp add: length_js_array_set)
  with Cons.prems show ?case by (simp add: Cons.IH)
qed

lemma nth_place:
  "j < length (fold (\<lambda>i a. js_array_set a i (c i)) ps segs) \<Longrightarrow>
   fold (\<lambda>i a. js_array_set a i (c i)) ps segs ! j =
     (if j \<in> set ps then Some (c j) else if j < length segs then segs ! j else None)"
proof (induction ps arbitrary: segs)
  case Nil
  then show ?case by simp
next
  case (Cons p ps)
  let ?segs' = "js_array_set segs p (c p)"
  from Cons.prems have j: "j < length (fold (\<lambda>i a. js_array_set a i (c i)) ps ?segs')" by simp
  show ?case
  proof (cases "j \<in> set ps")
    case True
    with Cons.IH [OF j] show ?thesis by simp
  next
    case False
    show ?thesis
    proof (cases "j < length ?segs'")
      case True
      with False Cons.IH [OF j] nth_js_array_set [OF True] show ?thesis
        by (auto simp: length_js_array_set)
    next
      case nl: False
      with False Cons.IH [OF j] show ?thesis
        by (auto simp: length_js_array_set)
    qed
  qed
qed

lemma place_all:
  assumes "set ps = {..<k}"
  shows "fold (\<lambda>i a. js_array_set a i (c i)) ps [] = map (\<lambda>i. Some (c i)) [0..<k]"
proof -
  let ?arr = "fold (\<lambda>i a. js_array_set a i (c i)) ps []"
  have le: "length ?arr \<le> k"
    using assms by (intro length_place_le) auto
  have ge: "k \<le> length ?arr"
  proof (cases k)
    case 0
    then show ?thesis by simp
  next
    case (Suc k')
    with assms have "k' \<in> set ps" by simp
    then have "k' < length ?arr" by (rule length_place_gt)
    with Suc show ?thesis by simp
  qed
  from le ge have len: "length ?arr = k" by simp
  show ?thesis
  proof (rule nth_equalityI)
    show "length ?arr = length (map (\<lambda>i. Some (c i)) [0..<k])" by (simp add: len)
  next
    fix j
    assume j: "j < length ?arr"
    with len assms have "j \<in> set ps" by simp
    with nth_place [OF j] j len show "?arr ! j = map (\<lambda>i. Some (c i)) [0..<k] ! j" by simp
  qed
qed

lemma concat_loop_all:
  "concat_loop (map Some bs) (length pre) (pre @ replicate (sum_list (map length bs)) 0)
     = Inr (pre @ concat bs)"
proof (induction bs arbitrary: pre)
  case Nil
  show ?case by simp
next
  case (Cons b bs)
  from Cons.IH [of "pre @ b"] show ?case
    by (simp add: replicate_add)
qed

lemma concatBuffers_all:
  "tot = sum_list (map length bs) \<Longrightarrow> concatBuffers (map Some bs) tot = Inr (concat bs)"
  using concat_loop_all [of bs "[]"] by (simp add: concatBuffers_def)

lemma decap_set:
  assumes "out_inner outer = Some inner" and "in_sig_valid inner" and "subs \<noteq> [] \<or> pubSubs \<noteq> []"
  shows "decap s pubSubs n mapping (Some nm, Some subs) outer = Inr ((Some nm, Some subs), Some inner)"
  using assms by (auto simp: decap_def)

lemma segment_loop_all:
  assumes seg: "\<And>i. i \<in> set ps \<Longrightarrow>
        out_inner (segment i) =
          Some \<lparr>in_name = nm i @ [SegmentComp i], in_content = content i, in_sig_valid = True\<rparr>"
    and subs: "subs \<noteq> [] \<or> pubSubs \<noteq> []"
  shows "segment_loop s pubSubs n mapping (map segment ps)
           ((Some name, Some subs), segs, count, tot)
         = Inr ((Some name, Some subs), fold (\<lambda>i a. js_array_set a i (content i)) ps segs,
                count + length ps, tot + sum_list (map (\<lambda>i. length (content i)) ps))"
  using seg
proof (induction ps arbitrary: segs count tot)
  case Nil
  show ?case by simp
next
  case (Cons p ps)
  let ?inner = "\<lparr>in_name = nm p @ [SegmentComp p], in_content = content p, in_sig_valid = True\<rparr>"
  from Cons.prems have p: "out_inner (segment p) = Some ?inner" by simp
  have d: "decap s pubSubs n mapping (Some name, Some subs) (segment p)
             = Inr ((Some name, Some subs), Some ?inner)"
    using p subs by (intro decap_set) simp_all
  from Cons.prems have "\<And>i. i \<in> set ps \<Longrightarrow>
        out_inner (segment i) =
          Some \<lparr>in_name = nm i @ [SegmentComp i], in_content = content i, in_sig_valid = True\<rparr>"
    by simp
  from Cons.IH [OF this] d show ?case by (simp add: add.assoc)
qed


text \<open>
  Claim C9: when the segments 0 to k-1 arrive exactly once each, in any order, and each
  passes \<open>decap\<close>, the payload is the concatenation of their contents in ascending
  segment order. \<open>retrieveSegmented\<close> is entered after the first \<open>decap\<close>, which has set
  \<open>name\<close> and \<open>nameSubs\<close> and has found a subscription. The witness is the arrival order
  2, 0, 1.
\<close>

theorem retrieveSegmented_index_order:
  assumes order: "distinct order" "set order = {..<k}"
    and fetch: "fetch_unordered net (outerPrefix @ [Version0]) = (map segment order, None)"
    and seg: "\<And>i. i < k \<Longrightarrow>
        out_inner (segment i) =
          Some \<lparr>in_name = nm i @ [SegmentComp i], in_content = content i, in_sig_valid = True\<rparr>"
    and subs: "subs \<noteq> [] \<or> pubSubs \<noteq> []"
  shows "retrieveSegmented s net pubSubs n mapping outerPrefix (Some name, Some subs)
         = Inr ((Some name, Some subs), concat (map content [0..<k]))"
proof -
  from order seg have seg': "\<And>i. i \<in> set order \<Longrightarrow>
        out_inner (segment i) =
          Some \<lparr>in_name = nm i @ [SegmentComp i], in_content = content i, in_sig_valid = True\<rparr>"
    by simp
  have loop: "segment_loop s pubSubs n mapping (map segment order)
           ((Some name, Some subs), [], 0, 0)
         = Inr ((Some name, Some subs), map (\<lambda>i. Some (content i)) [0..<k],
                length order, sum_list (map (\<lambda>i. length (content i)) order))"
    using segment_loop_all [OF seg' subs, of order s n mapping name "[]" 0 0]
    by (simp add: place_all [OF order(2)])
  from order have len: "length order = k"
    using distinct_card [of order] by simp
  have "sum_list (map (\<lambda>i. length (content i)) order) = sum (\<lambda>i. length (content i)) (set order)"
    using order(1) by (rule sum_list_distinct_conv_sum_set)
  also have "\<dots> = sum (\<lambda>i. length (content i)) (set [0..<k])"
    using order(2) by (simp add: atLeast0LessThan)
  also have "\<dots> = sum_list (map (\<lambda>i. length (content i)) [0..<k])"
    by (rule sum_list_distinct_conv_sum_set [symmetric]) simp
  finally have tot: "sum_list (map (\<lambda>i. length (content i)) order)
      = sum_list (map length (map content [0..<k]))"
    by (simp add: comp_def)
  have arr: "js_set_length (map (\<lambda>i. Some (content i)) [0..<k]) k = map Some (map content [0..<k])"
    by (simp add: js_set_length_def comp_def)
  from concatBuffers_all [OF tot] arr
  have "concatBuffers (js_set_length (map (\<lambda>i. Some (content i)) [0..<k]) k)
          (sum_list (map (\<lambda>i. length (content i)) order)) = Inr (concat (map content [0..<k]))"
    by simp
  with loop len fetch show ?thesis
    by (simp add: retrieveSegmented_def)
qed

theorem retrieveSegmented_index_order_witness:
  "fetch_unordered example_network
      ([GenericComp ''P'', GenericComp ''sync'', GenericNumber 7] @ [Version0])
     = (map example_segment [2, 0, 1], None)
   \<and> retrieveSegmented
     \<lparr>syncPrefix = [GenericComp ''sync''], nameSubs = [], nameFilters = Map.empty,
      publisherSubs = [\<lparr>sub_key = 1, topic = [GenericComp ''P'']\<rparr>],
      mappingBatch = 10, mustFilterByMapping = False, next_key = 2\<rparr>
     example_network [\<lparr>sub_key = 1, topic = [GenericComp ''P'']\<rparr>] 7 None
     [GenericComp ''P'', GenericComp ''sync'', GenericNumber 7]
     (Some [GenericComp ''t'', GenericComp ''x''], Some [])
   = Inr ((Some [GenericComp ''t'', GenericComp ''x''], Some []), [10, 11, 20, 30, 31, 32])"
proof -
  have order: "distinct [2, 0, 1::nat]" "set [2, 0, 1::nat] = {..<3}"
    by auto
  have fetch: "fetch_unordered example_network
      ([GenericComp ''P'', GenericComp ''sync'', GenericNumber 7] @ [Version0])
     = (map example_segment [2, 0, 1], None)"
    by (simp add: example_network_def example_fetch_def)
  have seg: "out_inner (example_segment i) =
          Some \<lparr>in_name = [GenericComp ''t'', GenericComp ''x'', VersionComp 0] @ [SegmentComp i],
                in_content = example_content i, in_sig_valid = True\<rparr>" for i
    by (simp add: example_segment_def)
  have subs: "([]::subscription list) \<noteq> [] \<or> [\<lparr>sub_key = 1, topic = [GenericComp ''P'']\<rparr>] \<noteq> []"
    by simp
  have "concat (map example_content [0..<3]) = [10, 11, 20, 30, 31, 32]"
    by (simp add: example_content_def upt_rec)
  with retrieveSegmented_index_order [OF order fetch seg subs] fetch show ?thesis by simp
qed


subsection \<open>Failure isolation\<close>

lemma dispatch_loop_eq:
  "dispatch_loop s net pub pubSubs mapping ns (delivered, reports) =
     (delivered @ concat (map (\<lambda>n. case dispatchUpdate s net pub pubSubs n mapping of
                                     Inl err \<Rightarrow> [] | Inr ds \<Rightarrow> ds) ns),
      reports @ List.map_filter (\<lambda>n. case dispatchUpdate s net pub pubSubs n mapping of
                                     Inl err \<Rightarrow> Some (DispatchUpdateError pub n err)
                                   | Inr ds \<Rightarrow> None) ns)"
  by (induction ns arbitrary: delivered reports) (auto split: sum.splits)

lemma set_map_filter: "set (List.map_filter f xs) = {y. \<exists>x \<in> set xs. f x = Some y}"
  by (induction xs) (auto split: option.splits)

text \<open>
  Claim C10: \<open>handleSyncUpdate\<close> does not fail. With the mapping that \<open>retrieveMapping\<close>
  returns (used when there is a name subscription and either no publisher subscription
  for the id or \<open>mustFilterByMapping\<close>), what it delivers is, for every sequence number of
  the range in turn, what \<open>dispatchUpdate\<close> delivers for that number when it succeeds;
  what it reports is what the mapping retrieval reported, followed by one \<open>dispatchUpdate\<close>
  error naming the publisher and the sequence number for every number whose
  \<open>dispatchUpdate\<close> failed. So every failure is reported, and every other number is
  served as if no number had failed.
\<close>

theorem handleSyncUpdate_isolates_failures:
  "\<exists>m mapping_reports sent delivered reports.
     retrieveMapping s net upd = Inr (m, mapping_reports, sent)
     \<and> handleSyncUpdate s net upd = Inr (delivered, reports)
     \<and> (let pubSubs = st_list (publisherSubs s) (id' upd);
             needed = (dimension (nameSubs s) \<noteq> 0 \<and> (pubSubs = [] \<or> mustFilterByMapping s));
             mapping = (if needed then Some m else None)
         in delivered =
              concat (map (\<lambda>n. case dispatchUpdate s net (id' upd) pubSubs n mapping of
                                  Inl err \<Rightarrow> [] | Inr ds \<Rightarrow> ds) (seqNums upd))
            \<and> reports =
              (if needed then mapping_reports else [])
              @ List.map_filter (\<lambda>n. case dispatchUpdate s net (id' upd) pubSubs n mapping of
                                      Inl err \<Rightarrow> Some (DispatchUpdateError (id' upd) n err)
                                    | Inr ds \<Rightarrow> None) (seqNums upd)
            \<and> (\<forall>n \<in> set (seqNums upd). \<forall>err.
                  dispatchUpdate s net (id' upd) pubSubs n mapping = Inl err \<longrightarrow>
                  DispatchUpdateError (id' upd) n err \<in> set reports)
            \<and> (\<forall>n \<in> set (seqNums upd). \<forall>ds.
                  dispatchUpdate s net (id' upd) pubSubs n mapping = Inr ds \<longrightarrow>
                  set ds \<subseteq> set delivered))"
proof -
  let ?pubSubs = "st_list (publisherSubs s) (id' upd)"
  let ?needed = "dimension (nameSubs s) \<noteq> 0 \<and> (?pubSubs = [] \<or> mustFilterByMapping s)"
  from retrieveMapping_total obtain m mapping_reports sent
    where rm: "retrieveMapping s net upd = Inr (m, mapping_reports, sent)" by blast
  let ?mapping = "if ?needed then Some m else None"
  let ?delivered = "concat (map (\<lambda>n. case dispatchUpdate s net (id' upd) ?pubSubs n ?mapping of
                                  Inl err \<Rightarrow> [] | Inr ds \<Rightarrow> ds) (seqNums upd))"
  let ?reports = "(if ?needed then mapping_reports else [])
              @ List.map_filter (\<lambda>n. case dispatchUpdate s net (id' upd) ?pubSubs n ?mapping of
                                      Inl err \<Rightarrow> Some (DispatchUpdateError (id' upd) n err)
                                    | Inr ds \<Rightarrow> None) (seqNums upd)"
  have h: "handleSyncUpdate s net upd = Inr (?delivered, ?reports)"
  proof (cases ?needed)
    case True
    with rm show ?thesis
      by (simp add: handleSyncUpdate_def dispatch_loop_eq Let_def)
  next
    case False
    then show ?thesis
      by (auto simp: handleSyncUpdate_def dispatch_loop_eq Let_def)
  qed
  have failed: "DispatchUpdateError (id' upd) n err \<in> set ?reports"
    if "n \<in> set (seqNums upd)" "dispatchUpdate s net (id' upd) ?pubSubs n ?mapping = Inl err"
    for n err
    using that unfolding set_append set_map_filter by force
  have served: "set ds \<subseteq> set ?delivered"
    if "n \<in> set (seqNums upd)" "dispatchUpdate s net (id' upd) ?pubSubs n ?mapping = Inr ds"
    for n ds
    using that by force
  from rm h failed served show ?thesis
    unfolding Let_def by blast
qed

theorem handleSyncUpdate_isolates_failures_witness:
  "handleSyncUpdate
     \<lparr>syncPrefix = [GenericComp ''sync''],
      nameSubs = [\<lparr>sub_key = 2, topic = [GenericComp ''t'']\<rparr>], nameFilters = Map.empty,
      publisherSubs = [], mappingBatch = 10, mustFilterByMapping = False, next_key = 3\<rparr>
     flaky_network \<lparr>id' = [GenericComp ''P''], loSeqNum = 1, hiSeqNum = 3\<rparr>
   = Inr ([NameDelivery \<lparr>sub_key = 2, topic = [GenericComp ''t'']\<rparr>
             \<lparr>u_publisher = [GenericComp ''P''], u_seqNum = 1,
              u_name = [GenericComp ''t'', GenericComp ''x''], u_payload = [1, 2, 3]\<rparr>,
           NameDelivery \<lparr>sub_key = 2, topic = [GenericComp ''t'']\<rparr>
             \<lparr>u_publisher = [GenericComp ''P''], u_seqNum = 3,
              u_name = [GenericComp ''t'', GenericComp ''x''], u_payload = [1, 2, 3]\<rparr>],
          [DispatchUpdateError [GenericComp ''P''] 2 ConsumeError])"
  using handleSyncUpdate_isolates_failures
    [of "\<lparr>syncPrefix = [GenericComp ''sync''],
      nameSubs = [\<lparr>sub_key = 2, topic = [GenericComp ''t'']\<rparr>], nameFilters = Map.empty,
      publisherSubs = [], mappingBatch = 10, mustFilterByMapping = False, next_key = 3\<rparr>"
     flaky_network "\<lparr>id' = [GenericComp ''P''], loSeqNum = 1, hiSeqNum = 3\<rparr>"]
  by (simp add: retrieveMapping_def batch_def dimension_def st_list_def seqNums_def
      dispatchUpdate_def dispatch_decapped_def retrieveSegmented_def decap_def strip_version_def
      Version0_def MappingKeyword_def listNameSubs_def lpm_def st_update_def Let_def
      example_outer_reply_def flaky_network_def range_mapping_reply_def flaky_outer_reply_def upt_rec)

subsection \<open>Filters of name subscriptions\<close>

lemma listNameSubs_rejects:
  "nameFilters s (sub_key sub) = Some f \<Longrightarrow> \<not> f e \<Longrightarrow> sub \<notin> set (listNameSubs s nm (Some e))"
  by (auto simp: listNameSubs_def)

lemma decap_keeps:
  "decap s pubSubs n mapping (Some nm, Some l) outer = Inr (st', r) \<Longrightarrow> st' = (Some nm, Some l)"
  by (auto simp: decap_def Let_def split: option.splits if_splits)

lemma segment_loop_keeps:
  "segment_loop s pubSubs n mapping arrivals ((Some nm, Some l), acc) = Inr (st', acc') \<Longrightarrow>
   st' = (Some nm, Some l)"
proof (induction arrivals arbitrary: acc)
  case Nil
  then show ?case by simp
next
  case (Cons outer rest)
  obtain segments count tot where acc: "acc = (segments, count, tot)" by (cases acc)
  from Cons.prems obtain st1 inner
    where d: "decap s pubSubs n mapping (Some nm, Some l) outer = Inr (st1, Some inner)"
    by (auto simp: acc split: sum.splits option.splits)
  from decap_keeps [OF d] have st1: "st1 = (Some nm, Some l)" .
  from Cons.prems d st1 obtain acc1
    where "segment_loop s pubSubs n mapping rest ((Some nm, Some l), acc1) = Inr (st', acc')"
    by (auto simp: acc split: if_splits component.splits)
  then show ?case by (rule Cons.IH)
qed

lemma retrieveSegmented_keeps:
  "retrieveSegmented s net pubSubs n mapping outerPrefix (Some nm, Some l) = Inr (st', payload) \<Longrightarrow>
   st' = (Some nm, Some l)"
  by (auto simp: retrieveSegmented_def split: prod.splits sum.splits option.splits
      dest: segment_loop_keeps)

lemma decap_first:
  assumes "decap s pubSubs n mapping (None, nameSubs0) outer = Inr (st', r)"
  shows "\<exists>nm. st' = (Some nm,
            Some (case nameSubs0 of Some l \<Rightarrow> l
                  | None \<Rightarrow> listNameSubs s nm (case mapping of None \<Rightarrow> None | Some m \<Rightarrow> m n)))"
  using assms by (auto simp: decap_def Let_def split: option.splits if_splits)

lemma set_st_update_Name:
  "NameDelivery sub u \<in> set (st_update PublisherDelivery pubSubs v @ st_update NameDelivery l v)
     \<longleftrightarrow> sub \<in> set l \<and> u = v"
  by (auto simp: st_update_def)

lemma dispatch_decapped_name:
  assumes "dispatch_decapped s net pub pubSubs n mapping nameSubs0 = Inr ds"
    and "NameDelivery sub u \<in> set ds"
  shows "u_seqNum u = n \<and>
         (\<exists>nm. sub \<in> set (case nameSubs0 of Some l \<Rightarrow> l
                  | None \<Rightarrow> listNameSubs s nm (case mapping of None \<Rightarrow> None | Some m \<Rightarrow> m n)))"
proof -
  let ?prefix = "pub @ syncPrefix s @ [GenericNumber n]"
  from assms(1) obtain outer where outer: "consume_outer net ?prefix = Inr outer"
    by (cases "consume_outer net ?prefix") (auto simp: dispatch_decapped_def Let_def)
  from assms outer obtain st inner
    where d: "decap s pubSubs n mapping (None, nameSubs0) outer = Inr (st, Some inner)"
    by (cases "decap s pubSubs n mapping (None, nameSubs0) outer")
      (auto simp: dispatch_decapped_def Let_def split: option.splits)
  from decap_first [OF d] obtain nm where
    st: "st = (Some nm, Some (case nameSubs0 of Some l \<Rightarrow> l
                  | None \<Rightarrow> listNameSubs s nm (case mapping of None \<Rightarrow> None | Some m \<Rightarrow> m n)))"
    (is "st = (Some nm, Some ?l)")
    by blast
  have "\<exists>payload. ds = st_update PublisherDelivery pubSubs
            \<lparr>u_publisher = pub, u_seqNum = n, u_name = nm, u_payload = payload\<rparr>
          @ st_update NameDelivery ?l
            \<lparr>u_publisher = pub, u_seqNum = n, u_name = nm, u_payload = payload\<rparr>"
  proof (cases "out_name outer = ?prefix")
    case True
    with assms(1) outer d st show ?thesis
      by (auto simp: dispatch_decapped_def Let_def)
  next
    case False
    with assms(1) outer d obtain st' payload where
      r: "retrieveSegmented s net pubSubs n mapping ?prefix st = Inr (st', payload)"
      by (cases "retrieveSegmented s net pubSubs n mapping ?prefix st")
        (auto simp: dispatch_decapped_def Let_def)
    from retrieveSegmented_keeps [OF r [unfolded st]] have "st' = st" by (simp add: st)
    with assms(1) outer d st r False show ?thesis
      by (auto simp: dispatch_decapped_def Let_def)
  qed
  then obtain payload where ds: "ds = st_update PublisherDelivery pubSubs
            \<lparr>u_publisher = pub, u_seqNum = n, u_name = nm, u_payload = payload\<rparr>
          @ st_update NameDelivery ?l
            \<lparr>u_publisher = pub, u_seqNum = n, u_name = nm, u_payload = payload\<rparr>"
    by blast
  from assms(2) have "sub \<in> set ?l
      \<and> u = \<lparr>u_publisher = pub, u_seqNum = n, u_name = nm, u_payload = payload\<rparr>"
    unfolding ds set_st_update_Name .
  then show ?thesis by auto
qed

lemma dispatchUpdate_name:
  assumes rej: "nameFilters s (sub_key sub) = Some f" "\<And>e. \<not> f e"
    and m: "pubSubs = [] \<or> m n \<noteq> None"
    and d: "dispatchUpdate s net pub pubSubs n (Some m) = Inr ds"
  shows "NameDelivery sub u \<notin> set ds"
proof
  assume in_ds: "NameDelivery sub u \<in> set ds"
  show False
  proof (cases "pubSubs = []")
    case True
    with d in_ds obtain entry where entry: "m n = Some entry"
      by (cases "m n") (auto simp: dispatchUpdate_def)
    with d True in_ds
    have "dispatch_decapped s net pub pubSubs n (Some m)
            (Some (listNameSubs s (me_name entry) (Some entry))) = Inr ds"
      by (auto simp: dispatchUpdate_def Let_def split: if_splits)
    from dispatch_decapped_name [OF this in_ds]
    have "sub \<in> set (listNameSubs s (me_name entry) (Some entry))" by simp
    with listNameSubs_rejects [OF rej(1) rej(2)] show False by blast
  next
    case False
    with m obtain entry where entry: "m n = Some entry" by auto
    from d False have "dispatch_decapped s net pub pubSubs n (Some m) None = Inr ds"
      by (simp add: dispatchUpdate_def)
    from dispatch_decapped_name [OF this in_ds] entry
    obtain nm where "sub \<in> set (listNameSubs s nm (Some entry))" by auto
    with listNameSubs_rejects [OF rej(1) rej(2)] show False by blast
  qed
qed

lemma dispatchUpdate_seqNum:
  assumes "dispatchUpdate s net pub pubSubs n mapping = Inr ds" and "NameDelivery sub u \<in> set ds"
  shows "u_seqNum u = n"
proof -
  from assms obtain nameSubs0 where
    "dispatch_decapped s net pub pubSubs n mapping nameSubs0 = Inr ds"
    by (auto simp: dispatchUpdate_def Let_def split: option.splits if_splits)
  from dispatch_decapped_name [OF this assms(2)] show ?thesis by simp
qed

lemma dimension_pos: "sub \<in> set tbl \<Longrightarrow> dimension tbl \<noteq> 0"
  by (auto simp: dimension_def)


text \<open>
  Claim C5, as the code has it: a name subscription whose filter rejects every mapping
  entry is not served an update when the subscriber holds the mapping entry of the
  update's sequence number: that is so when there is no publisher subscription for the
  update's id, or when \<open>mustFilterByMapping\<close> is set and the retrieved mapping has the
  sequence number.
\<close>

theorem filtered_subscription_not_served:
  assumes sub: "sub \<in> set (nameSubs s)"
    and rej: "nameFilters s (sub_key sub) = Some f" "\<And>e. \<not> f e"
    and avail: "st_list (publisherSubs s) (id' upd) = []
       \<or> (mustFilterByMapping s
           \<and> (\<exists>m reports sent. retrieveMapping s net upd = Inr (m, reports, sent)
                 \<and> m (u_seqNum u) \<noteq> None))"
  shows "\<exists>delivered reports. handleSyncUpdate s net upd = Inr (delivered, reports)
           \<and> NameDelivery sub u \<notin> set delivered"
proof -
  let ?pubSubs = "st_list (publisherSubs s) (id' upd)"
  from retrieveMapping_total obtain m reports sent
    where rm: "retrieveMapping s net upd = Inr (m, reports, sent)" by blast
  from avail have cond: "?pubSubs = [] \<or> mustFilterByMapping s" by blast
  from avail rm have entry: "?pubSubs = [] \<or> m (u_seqNum u) \<noteq> None" by auto
  let ?delivered = "concat (map (\<lambda>n. case dispatchUpdate s net (id' upd) ?pubSubs n (Some m) of
                               Inl err \<Rightarrow> [] | Inr ds \<Rightarrow> ds) (seqNums upd))"
  from dimension_pos [OF sub] cond rm
  have h: "\<exists>reports'. handleSyncUpdate s net upd = Inr (?delivered, reports')"
    by (simp add: handleSyncUpdate_def dispatch_loop_eq Let_def)
  have "NameDelivery sub u \<notin> set ?delivered"
  proof
    assume "NameDelivery sub u \<in> set ?delivered"
    then obtain n where "NameDelivery sub u
        \<in> set (case dispatchUpdate s net (id' upd) ?pubSubs n (Some m) of
                 Inl err \<Rightarrow> [] | Inr ds \<Rightarrow> ds)"
      by auto
    then obtain ds where ds: "dispatchUpdate s net (id' upd) ?pubSubs n (Some m) = Inr ds"
      and in_ds: "NameDelivery sub u \<in> set ds"
      by (cases "dispatchUpdate s net (id' upd) ?pubSubs n (Some m)") auto
    from dispatchUpdate_seqNum [OF ds in_ds] have n: "u_seqNum u = n" .
    from entry n have "?pubSubs = [] \<or> m n \<noteq> None" by simp
    from dispatchUpdate_name [OF rej(1) rej(2) this ds] in_ds show False by blast
  qed
  with h show ?thesis by blast
qed

theorem filtered_subscription_not_served_witness:
  "\<lparr>sub_key = 0, topic = [GenericComp ''t'']\<rparr>
     \<in> set (nameSubs
       \<lparr>syncPrefix = [GenericComp ''sync''],
        nameSubs = [\<lparr>sub_key = 0, topic = [GenericComp ''t'']\<rparr>,
                    \<lparr>sub_key = 2, topic = [GenericComp ''t'']\<rparr>],
        nameFilters = [0 \<mapsto> reject_all],
        publisherSubs = [\<lparr>sub_key = 1, topic = [GenericComp ''P'']\<rparr>],
        mappingBatch = 10, mustFilterByMapping = True, next_key = 3\<rparr>)
   \<and> handleSyncUpdate
       \<lparr>syncPrefix = [GenericComp ''sync''],
        nameSubs = [\<lparr>sub_key = 0, topic = [GenericComp ''t'']\<rparr>,
                    \<lparr>sub_key = 2, topic = [GenericComp ''t'']\<rparr>],
        nameFilters = [0 \<mapsto> reject_all],
        publisherSubs = [\<lparr>sub_key = 1, topic = [GenericComp ''P'']\<rparr>],
        mappingBatch = 10, mustFilterByMapping = True, next_key = 3\<rparr>
       example_network \<lparr>id' = [GenericComp ''P''], loSeqNum = 1, hiSeqNum = 1\<rparr>
     = Inr ([PublisherDelivery \<lparr>sub_key = 1, topic = [GenericComp ''P'']\<rparr>
               \<lparr>u_publisher = [GenericComp ''P''], u_seqNum = 1,
                u_name = [GenericComp ''t'', GenericComp ''x''], u_payload = [1, 2, 3]\<rparr>,
             NameDelivery \<lparr>sub_key = 2, topic = [GenericComp ''t'']\<rparr>
               \<lparr>u_publisher = [GenericComp ''P''], u_seqNum = 1,
                u_name = [GenericComp ''t'', GenericComp ''x''], u_payload = [1, 2, 3]\<rparr>], [])"
proof -
  let ?s = "\<lparr>syncPrefix = [GenericComp ''sync''],
        nameSubs = [\<lparr>sub_key = 0, topic = [GenericComp ''t'']\<rparr>,
                    \<lparr>sub_key = 2, topic = [GenericComp ''t'']\<rparr>],
        nameFilters = [0 \<mapsto> reject_all],
        publisherSubs = [\<lparr>sub_key = 1, topic = [GenericComp ''P'']\<rparr>],
        mappingBatch = 10, mustFilterByMapping = True, next_key = 3\<rparr>"
  let ?upd = "\<lparr>id' = [GenericComp ''P''], loSeqNum = 1, hiSeqNum = 1\<rparr>"
  let ?u = "\<lparr>u_publisher = [GenericComp ''P''], u_seqNum = 1,
                u_name = [GenericComp ''t'', GenericComp ''x''], u_payload = [1, 2, 3]\<rparr>"
  have sub: "\<lparr>sub_key = 0, topic = [GenericComp ''t'']\<rparr> \<in> set (nameSubs ?s)" by simp
  have filter: "nameFilters ?s (sub_key \<lparr>sub_key = 0, topic = [GenericComp ''t'']\<rparr>) = Some reject_all"
    by simp
  have rej: "\<not> reject_all e" for e by (simp add: reject_all_def)
  have rm: "retrieveMapping ?s example_network ?upd
      = Inr ([1 \<mapsto> \<lparr>me_seqNum = 1, me_name = [GenericComp ''t'', GenericComp ''x'']\<rparr>], [],
             [[GenericComp ''P'', GenericComp ''sync'', MappingKeyword, GenericNumber 1, GenericNumber 1]])"
    by (simp add: retrieveMapping_def batch_def seqNums_def example_network_def
        example_mapping_reply_def)
  have avail: "st_list (publisherSubs ?s) (id' ?upd) = []
       \<or> (mustFilterByMapping ?s
           \<and> (\<exists>m reports sent. retrieveMapping ?s example_network ?upd = Inr (m, reports, sent)
                 \<and> m (u_seqNum ?u) \<noteq> None))"
    by (simp del: One_nat_def add: rm)
  have h: "handleSyncUpdate ?s example_network ?upd
     = Inr ([PublisherDelivery \<lparr>sub_key = 1, topic = [GenericComp ''P'']\<rparr> ?u,
             NameDelivery \<lparr>sub_key = 2, topic = [GenericComp ''t'']\<rparr> ?u], [])"
    by (simp add: subscriber_eval)
  from filtered_subscription_not_served [OF sub filter rej avail] sub h show ?thesis by simp
qed

text \<open>
  Claim C5 as stated fails: with a publisher subscription for the update's id and
  \<open>mustFilterByMapping\<close> off, the mapping is not retrieved, the filter is not called, and
  the subscription whose filter rejects everything is served the update under its prefix.
\<close>

theorem filtered_subscription_served_without_mapping:
  "nameFilters
     \<lparr>syncPrefix = [GenericComp ''sync''],
      nameSubs = [\<lparr>sub_key = 0, topic = [GenericComp ''t'']\<rparr>],
      nameFilters = [0 \<mapsto> reject_all],
      publisherSubs = [\<lparr>sub_key = 1, topic = [GenericComp ''P'']\<rparr>],
      mappingBatch = 10, mustFilterByMapping = False, next_key = 2\<rparr> 0 = Some reject_all
   \<and> handleSyncUpdate
     \<lparr>syncPrefix = [GenericComp ''sync''],
      nameSubs = [\<lparr>sub_key = 0, topic = [GenericComp ''t'']\<rparr>],
      nameFilters = [0 \<mapsto> reject_all],
      publisherSubs = [\<lparr>sub_key = 1, topic = [GenericComp ''P'']\<rparr>],
      mappingBatch = 10, mustFilterByMapping = False, next_key = 2\<rparr>
     example_network \<lparr>id' = [GenericComp ''P''], loSeqNum = 1, hiSeqNum = 1\<rparr>
   = Inr ([PublisherDelivery \<lparr>sub_key = 1, topic = [GenericComp ''P'']\<rparr>
             \<lparr>u_publisher = [GenericComp ''P''], u_seqNum = 1,
              u_name = [GenericComp ''t'', GenericComp ''x''], u_payload = [1, 2, 3]\<rparr>,
           NameDelivery \<lparr>sub_key = 0, topic = [GenericComp ''t'']\<rparr>
             \<lparr>u_publisher = [GenericComp ''P''], u_seqNum = 1,
              u_name = [GenericComp ''t'', GenericComp ''x''], u_payload = [1, 2, 3]\<rparr>], [])"
  by (simp add: subscriber_eval)


end
